theory Spec2Isabelle
  imports Main "HOL-Library.Multiset"
begin

section \<open>Strings and text files\<close>

text \<open>
  A file holds a sequence of characters, and the program opens every file in text mode
  with the default arguments. What the program handles is then not what the file holds:
  on reading, each of the three line ends (carriage return and line feed, carriage return
  alone, line feed alone) comes out as one newline character; on writing, every newline
  character goes into the file as the line separator of the platform. Both translations
  are modelled. The character encoding is not: a character of the file is a character of
  the text.
\<close>

abbreviation newline :: char where
  "newline \<equiv> CHR 0x0A"

abbreviation carriage_return :: char where
  "carriage_return \<equiv> CHR 0x0D"

text \<open>Reading in text mode: universal newlines.\<close>

fun decode_newlines :: "string \<Rightarrow> string" where
  "decode_newlines [] = []"
| "decode_newlines [c] = [if c = carriage_return then newline else c]"
| "decode_newlines (c # d # cs) =
     (if c = carriage_return then
        (if d = newline then newline # decode_newlines cs
         else newline # decode_newlines (d # cs))
      else c # decode_newlines (d # cs))"

text \<open>Writing in text mode: \<open>sep\<close> is \<^verbatim>\<open>os.linesep\<close>.\<close>

fun encode_newlines :: "string \<Rightarrow> string \<Rightarrow> string" where
  "encode_newlines sep [] = []"
| "encode_newlines sep (c # cs) = (if c = newline then sep else [c]) @ encode_newlines sep cs"

text \<open>\<^verbatim>\<open>s.startswith(p)\<close>\<close>

fun startswith :: "string \<Rightarrow> string \<Rightarrow> bool" where
  "startswith s [] = True"
| "startswith [] (p # ps) = False"
| "startswith (c # s) (p # ps) = (c = p \<and> startswith s ps)"

text \<open>\<^verbatim>\<open>s.endswith(p)\<close>\<close>

definition endswith :: "string \<Rightarrow> string \<Rightarrow> bool" where
  "endswith s p = startswith (rev s) (rev p)"

text \<open>\<^verbatim>\<open>sub in s\<close> on strings: \<open>sub\<close> occurs in \<open>s\<close> as a contiguous substring.\<close>

fun contains :: "string \<Rightarrow> string \<Rightarrow> bool" where
  "contains sub [] = (sub = [])"
| "contains sub (c # s) = (startswith (c # s) sub \<or> contains sub s)"

text \<open>
  \<^verbatim>\<open>for line in file\<close>: the lines of a text, each with its terminating newline; only the
  last line may lack one, and the empty text has no line.
\<close>

fun file_lines :: "string \<Rightarrow> string list" where
  "file_lines [] = []"
| "file_lines (c # cs) =
     (if c = newline then [c] # file_lines cs
      else (case file_lines cs of [] \<Rightarrow> [[c]] | l # ls \<Rightarrow> (c # l) # ls))"

section \<open>The file rewriter\<close>

text \<open>\<^verbatim>\<open>"S{} ".format(spindle_speed)\<close>, the text looked for in the candidate line.\<close>

definition s_check :: "string \<Rightarrow> string" where
  "s_check spindle_speed = ''S'' @ spindle_speed @ '' ''"

text \<open>\<^verbatim>\<open>"S{} M3\n".format(spindle_speed)\<close>, the line put in the candidate line's place.\<close>

definition s_line :: "string \<Rightarrow> string" where
  "s_line spindle_speed = ''S'' @ spindle_speed @ '' M3'' @ [newline]"

text \<open>
  The loop over the lines of \<open>update_file_spindle_speed\<close>, with its two variables
  \<open>found_s_command\<close> and \<open>updated_lines\<close>. \<open>None\<close> is the \<^verbatim>\<open>return\<close> inside the loop, which
  leaves the function before the file is opened for writing; \<open>Some\<close> carries the value of
  \<open>updated_lines\<close> when the loop ends.
\<close>

fun scan_lines :: "string \<Rightarrow> string list \<Rightarrow> bool \<Rightarrow> string list \<Rightarrow> string list option" where
  "scan_lines spindle_speed [] found_s_command updated_lines = Some updated_lines"
| "scan_lines spindle_speed (line # rest) found_s_command updated_lines =
     (if found_s_command then
        scan_lines spindle_speed rest found_s_command (updated_lines @ [line])
      else if startswith line ''S'' then
        (if contains (s_check spindle_speed) line then None
         else scan_lines spindle_speed rest True (updated_lines @ [s_line spindle_speed]))
      else scan_lines spindle_speed rest found_s_command (updated_lines @ [line]))"

type_synonym path = "string list"

datatype error = IOError | ZeroDivisionError

text \<open>
  The part of the world the program acts on: the characters held by every file that can
  be opened for reading, by path; the files that can be opened for writing; the line
  separator of the platform; and the record of the \<open>open\<close> calls that succeeded so far,
  in order.
\<close>

datatype io_event = Open_read path | Open_write path

record world =
  contents :: "path \<rightharpoonup> string"
  writable :: "path set"
  linesep :: string
  opened :: "io_event list"

text \<open>
  \<open>update_file_spindle_speed\<close>. An \<open>open\<close> that fails raises, for reading as for writing,
  and the exception is not caught anywhere in the program. The lines are those of the
  text as read. \<open>writelines\<close> writes the strings of \<open>updated_lines\<close> one after the other,
  adding nothing between them, and the file then holds that text as written.
\<close>

definition update_file_spindle_speed :: "path \<Rightarrow> string \<Rightarrow> world \<Rightarrow> error + world" where
  "update_file_spindle_speed file_path spindle_speed w =
     (case contents w file_path of
        None \<Rightarrow> Inl IOError
      | Some held \<Rightarrow>
          (let w1 = w\<lparr>opened := opened w @ [Open_read file_path]\<rparr> in
           case scan_lines spindle_speed (file_lines (decode_newlines held)) False [] of
             None \<Rightarrow> Inr w1
           | Some updated_lines \<Rightarrow>
               if file_path \<in> writable w then
                 Inr (w1\<lparr>contents := (contents w1)(file_path \<mapsto>
                                        encode_newlines (linesep w) (concat updated_lines)),
                         opened := opened w1 @ [Open_write file_path]\<rparr>)
               else Inl IOError))"


section \<open>The directory walker\<close>

text \<open>
  What the operating system lists under a directory: plain files and subdirectories, by
  name, in the order in which a listing returns them.
\<close>

datatype entry = File string | Dir string "entry list"

fun file_names :: "entry list \<Rightarrow> string list" where
  "file_names [] = []"
| "file_names (File n # es) = n # file_names es"
| "file_names (Dir n cs # es) = file_names es"

fun dir_names :: "entry list \<Rightarrow> string list" where
  "dir_names [] = []"
| "dir_names (File n # es) = dir_names es"
| "dir_names (Dir n cs # es) = n # dir_names es"

text \<open>
  \<^verbatim>\<open>os.walk(folder_path)\<close>, top down: one triple \<open>(root, dirs, files)\<close> for the directory
  itself, then the triples of each of its subdirectories in turn.
\<close>

type_synonym walk_item = "path \<times> string list \<times> string list"

fun walk :: "path \<Rightarrow> entry list \<Rightarrow> walk_item list"
  and walk_subdirs :: "path \<Rightarrow> entry list \<Rightarrow> walk_item list" where
  "walk folder ents = (folder, dir_names ents, file_names ents) # walk_subdirs folder ents"
| "walk_subdirs folder [] = []"
| "walk_subdirs folder (File n # es) = walk_subdirs folder es"
| "walk_subdirs folder (Dir n cs # es) = walk (folder @ [n]) cs @ walk_subdirs folder es"

text \<open>
  \<^verbatim>\<open>pathlib.Path(folder_path).rglob('*.tap')\<close>: every path below the directory, at any
  depth, whose last component matches the pattern. The pattern is matched against the
  name of whatever is found, so a subdirectory whose name matches is among the results
  (and is searched in turn).
\<close>

fun rglob_tap :: "path \<Rightarrow> entry list \<Rightarrow> path list" where
  "rglob_tap folder [] = []"
| "rglob_tap folder (File n # es) =
     (if endswith n ''.tap'' then [folder @ [n]] else []) @ rglob_tap folder es"
| "rglob_tap folder (Dir n cs # es) =
     (if endswith n ''.tap'' then [folder @ [n]] else []) @ rglob_tap (folder @ [n]) cs
       @ rglob_tap folder es"

text \<open>The variables of \<open>update_spindle_speed\<close>, with the world it acts on.\<close>

record progress =
  world_of :: world
  processed_files :: nat
  total_files :: nat

text \<open>
  The inner loop, \<^verbatim>\<open>for file in files\<close>. The progress bar divides \<open>processed_files\<close> by
  \<open>total_files\<close> right after the count is incremented; Python raises \<open>ZeroDivisionError\<close>
  there when \<open>total_files\<close> is zero, which ends the run. What is printed is not modelled.
\<close>

fun process_files :: "string \<Rightarrow> path \<Rightarrow> string list \<Rightarrow> progress \<Rightarrow> error + progress" where
  "process_files spindle_speed root [] st = Inr st"
| "process_files spindle_speed root (file # rest) st =
     (if endswith file ''.tap'' then
        (case update_file_spindle_speed (root @ [file]) spindle_speed (world_of st) of
           Inl e \<Rightarrow> Inl e
         | Inr w' \<Rightarrow>
             (let st' = st\<lparr>world_of := w', processed_files := processed_files st + 1\<rparr> in
              if total_files st' = 0 then Inl ZeroDivisionError
              else process_files spindle_speed root rest st'))
      else process_files spindle_speed root rest st)"

text \<open>The outer loop, \<^verbatim>\<open>for root, dirs, files in os.walk(folder_path)\<close>.\<close>

fun process_walk :: "string \<Rightarrow> walk_item list \<Rightarrow> progress \<Rightarrow> error + progress" where
  "process_walk spindle_speed [] st = Inr st"
| "process_walk spindle_speed ((root, dirs, files) # items) st =
     (case process_files spindle_speed root files st of
        Inl e \<Rightarrow> Inl e
      | Inr st' \<Rightarrow> process_walk spindle_speed items st')"

text \<open>
  \<open>update_spindle_speed\<close>, where \<open>ents\<close> is what lies under \<open>folder_path\<close>. The result is
  the state of the run when the traversal is over.
\<close>

definition update_spindle_speed :: "entry list \<Rightarrow> path \<Rightarrow> string \<Rightarrow> world \<Rightarrow> error + progress" where
  "update_spindle_speed ents folder_path spindle_speed w =
     (let total = length (rglob_tap folder_path ents) in
      process_walk spindle_speed (walk folder_path ents)
        \<lparr>world_of = w, processed_files = 0, total_files = total\<rparr>)"

section \<open>Vocabulary of the properties\<close>

text \<open>The first line that starts with \<open>S\<close>, and its position.\<close>

definition first_s_line :: "string list \<Rightarrow> string option" where
  "first_s_line ls = find (\<lambda>l. startswith l ''S'') ls"

definition first_s_index :: "string list \<Rightarrow> nat" where
  "first_s_index ls = length (takeWhile (\<lambda>l. \<not> startswith l ''S'') ls)"

text \<open>
  A list of lines with the first line that starts with \<open>S\<close> taken out and the line
  \<open>S<speed> M3\<close> with its newline put in its place, as one text.
\<close>

definition replaced :: "string \<Rightarrow> string list \<Rightarrow> string" where
  "replaced sp ls =
     concat (take (first_s_index ls) ls) @ (''S'' @ sp @ '' M3'' @ [newline])
       @ concat (drop (Suc (first_s_index ls)) ls)"

text \<open>The text that reading a file in text mode yields.\<close>

definition read_text :: "world \<Rightarrow> path \<Rightarrow> string option" where
  "read_text w p = map_option decode_newlines (contents w p)"

text \<open>
  The two ways in which a call of the rewriter can end normally: it has read the file
  and returned, or it has read the file and written a text to it.
\<close>

definition skipped :: "path \<Rightarrow> world \<Rightarrow> world" where
  "skipped p w = w\<lparr>opened := opened w @ [Open_read p]\<rparr>"

definition written :: "path \<Rightarrow> string \<Rightarrow> world \<Rightarrow> world" where
  "written p text w =
     w\<lparr>contents := (contents w)(p \<mapsto> encode_newlines (linesep w) text),
       opened := opened w @ [Open_read p, Open_write p]\<rparr>"

text \<open>
  The two line separators that a platform can have, the line feed and the pair of
  carriage return and line feed.
\<close>

definition platform_linesep :: "string \<Rightarrow> bool" where
  "platform_linesep sep \<longleftrightarrow> sep = [newline] \<or> sep = [carriage_return, newline]"

text \<open>A text without carriage return, and a speed that is one line: no line end in it.\<close>

definition cr_free :: "string \<Rightarrow> bool" where
  "cr_free t \<longleftrightarrow> carriage_return \<notin> set t"

definition one_line :: "string \<Rightarrow> bool" where
  "one_line sp \<longleftrightarrow> newline \<notin> set sp \<and> carriage_return \<notin> set sp"

text \<open>
  A world with one file, which can be written, and no history; the line separator is the
  line feed, or the pair of carriage return and line feed.
\<close>

definition single_file :: "path \<Rightarrow> string \<Rightarrow> world" where
  "single_file p held =
     \<lparr>contents = [p \<mapsto> held], writable = {p}, linesep = [newline], opened = []\<rparr>"

definition single_file_crlf :: "path \<Rightarrow> string \<Rightarrow> world" where
  "single_file_crlf p held =
     \<lparr>contents = [p \<mapsto> held], writable = {p}, linesep = [carriage_return, newline],
      opened = []\<rparr>"


text \<open>
  Calling the rewriter with one speed on the files of a list, one after the other, until
  a call raises.
\<close>

fun rewrite_each :: "string \<Rightarrow> path list \<Rightarrow> world \<Rightarrow> error + world" where
  "rewrite_each sp [] w = Inr w"
| "rewrite_each sp (p # ps) w =
     (case update_file_spindle_speed p sp w of
        Inl e \<Rightarrow> Inl e
      | Inr w' \<Rightarrow> rewrite_each sp ps w')"


text \<open>A line that ends with a newline and has no other.\<close>

definition terminated :: "string \<Rightarrow> bool" where
  "terminated l \<longleftrightarrow> l \<noteq> [] \<and> last l = newline \<and> newline \<notin> set (butlast l)"

text \<open>Lists of lines as reading a text yields them.\<close>

fun lines_wf :: "string list \<Rightarrow> bool" where
  "lines_wf [] = True"
| "lines_wf [l] = (l \<noteq> [] \<and> newline \<notin> set (butlast l))"
| "lines_wf (l # l' # ls) = (terminated l \<and> lines_wf (l' # ls))"

text \<open>
  The plain files of a tree whose name ends with \<open>.tap\<close>, and the others, by path, in the
  order of the tree.
\<close>

fun tap_files :: "path \<Rightarrow> entry list \<Rightarrow> path list" where
  "tap_files folder [] = []"
| "tap_files folder (File n # es) =
     (if endswith n ''.tap'' then [folder @ [n]] else []) @ tap_files folder es"
| "tap_files folder (Dir n cs # es) = tap_files (folder @ [n]) cs @ tap_files folder es"

fun other_files :: "path \<Rightarrow> entry list \<Rightarrow> path list" where
  "other_files folder [] = []"
| "other_files folder (File n # es) =
     (if endswith n ''.tap'' then [] else [folder @ [n]]) @ other_files folder es"
| "other_files folder (Dir n cs # es) = other_files (folder @ [n]) cs @ other_files folder es"

text \<open>A name that ends with \<open>.tap\<close>, as both the walk and the count test it.\<close>

abbreviation is_tap :: "string \<Rightarrow> bool" where
  "is_tap f \<equiv> endswith f ''.tap''"

text \<open>The subdirectories of a tree whose name ends with \<open>.tap\<close>.\<close>

fun tap_dirs :: "path \<Rightarrow> entry list \<Rightarrow> path list" where
  "tap_dirs folder [] = []"
| "tap_dirs folder (File n # es) = tap_dirs folder es"
| "tap_dirs folder (Dir n cs # es) =
     (if endswith n ''.tap'' then [folder @ [n]] else []) @ tap_dirs (folder @ [n]) cs
       @ tap_dirs folder es"

text \<open>The paths opened for reading in a record of calls, in order.\<close>

fun read_paths :: "io_event list \<Rightarrow> path list" where
  "read_paths [] = []"
| "read_paths (Open_read p # evs) = p # read_paths evs"
| "read_paths (Open_write p # evs) = read_paths evs"

text \<open>The \<open>.tap\<close> files that a walk comes across, in the order of the walk.\<close>

fun walk_taps :: "walk_item list \<Rightarrow> path list" where
  "walk_taps [] = []"
| "walk_taps ((root, dirs, files) # items) =
     map (\<lambda>f. root @ [f]) (filter (\<lambda>f. endswith f ''.tap'') files) @ walk_taps items"

section \<open>Facts about strings and lines\<close>

lemma startswith_iff: "startswith s p \<longleftrightarrow> (\<exists>t. s = p @ t)"
  by (induction s p rule: startswith.induct) auto

lemma contains_iff: "contains sub s \<longleftrightarrow> (\<exists>u v. s = u @ sub @ v)"
proof (induction s)
  case Nil
  then show ?case by auto
next
  case (Cons c s)
  show ?case
  proof
    assume "contains sub (c # s)"
    then consider "startswith (c # s) sub" | "contains sub s" by auto
    then show "\<exists>u v. c # s = u @ sub @ v"
    proof cases
      case 1
      then obtain t where "c # s = sub @ t" by (auto simp: startswith_iff)
      then have "c # s = [] @ sub @ t" by simp
      then show ?thesis by blast
    next
      case 2
      then obtain u v where "s = u @ sub @ v" using Cons.IH by auto
      then have "c # s = (c # u) @ sub @ v" by simp
      then show ?thesis by blast
    qed
  next
    assume "\<exists>u v. c # s = u @ sub @ v"
    then obtain u v where uv: "c # s = u @ sub @ v" by blast
    show "contains sub (c # s)"
    proof (cases u)
      case Nil
      then have "startswith (c # s) sub" using uv by (auto simp: startswith_iff)
      then show ?thesis by simp
    next
      case (Cons a u')
      then have "s = u' @ sub @ v" using uv by simp
      then have "contains sub s" using Cons.IH by blast
      then show ?thesis by simp
    qed
  qed
qed

lemma concat_file_lines: "concat (file_lines s) = s"
  by (induction s) (auto split: list.splits)

lemma lines_wf_file_lines: "lines_wf (file_lines s)"
proof (induction s)
  case Nil
  then show ?case by simp
next
  case (Cons c s)
  show ?case
  proof (cases "c = newline")
    case True
    then show ?thesis using Cons by (cases "file_lines s") (auto simp: terminated_def)
  next
    case False
    show ?thesis
    proof (cases "file_lines s")
      case Nil
      then show ?thesis using False by simp
    next
      case (Cons l ls)
      then show ?thesis using False Cons.IH
        by (cases ls) (auto simp: terminated_def)
    qed
  qed
qed

lemma file_lines_terminated: "terminated l \<Longrightarrow> file_lines (l @ s) = l # file_lines s"
proof (induction l)
  case Nil
  then show ?case by (simp add: terminated_def)
next
  case (Cons c l)
  show ?case
  proof (cases l)
    case Nil
    then show ?thesis using Cons.prems by (simp add: terminated_def)
  next
    case (Cons d l')
    then have "terminated l" and "c \<noteq> newline" using Cons.prems by (auto simp: terminated_def)
    then show ?thesis using Cons.IH by simp
  qed
qed

lemma file_lines_last: "l \<noteq> [] \<Longrightarrow> newline \<notin> set (butlast l) \<Longrightarrow> file_lines l = [l]"
proof (induction l)
  case Nil
  then show ?case by simp
next
  case (Cons c l)
  then show ?case by (cases l) (auto split: if_splits)
qed

lemma file_lines_concat: "lines_wf ls \<Longrightarrow> file_lines (concat ls) = ls"
  by (induction ls rule: lines_wf.induct) (auto simp: file_lines_last file_lines_terminated)

lemma lines_wf_Cons:
  "lines_wf (l # ls) =
     (if ls = [] then l \<noteq> [] \<and> newline \<notin> set (butlast l) else terminated l \<and> lines_wf ls)"
  by (cases ls) auto

lemma lines_wf_append: "lines_wf (a @ b) \<Longrightarrow> lines_wf b"
  by (induction a) (auto simp: lines_wf_Cons split: if_splits)

lemma lines_wf_replace:
  "lines_wf (a @ c # b) \<Longrightarrow> terminated x \<Longrightarrow> lines_wf (a @ x # b)"
  by (induction a) (auto simp: lines_wf_Cons terminated_def split: if_splits)

lemma terminated_s_line: "newline \<notin> set sp \<Longrightarrow> terminated (s_line sp)"
  by (auto simp: terminated_def s_line_def butlast_append)


lemma scan_lines_found: "scan_lines sp ls True acc = Some (acc @ ls)"
  by (induction ls arbitrary: acc) auto

lemma scan_lines_no_s:
  "\<forall>l\<in>set ls. \<not> startswith l ''S'' \<Longrightarrow> scan_lines sp ls False acc = Some (acc @ ls)"
  by (induction ls arbitrary: acc) auto

lemma scan_lines_split:
  "\<forall>l\<in>set pre. \<not> startswith l ''S'' \<Longrightarrow> startswith c ''S'' \<Longrightarrow>
   scan_lines sp (pre @ c # post) False acc =
     (if contains (s_check sp) c then None else Some (acc @ pre @ s_line sp # post))"
  by (induction pre arbitrary: acc) (auto simp: scan_lines_found)

lemma first_s_line_None:
  "first_s_line ls = None \<longleftrightarrow> (\<forall>l\<in>set ls. \<not> startswith l ''S'')"
  by (auto simp: first_s_line_def find_None_iff)

lemma first_s_line_Some:
  "first_s_line ls = Some c \<Longrightarrow>
   \<exists>pre post. ls = pre @ c # post \<and> (\<forall>l\<in>set pre. \<not> startswith l ''S'') \<and>
     startswith c ''S'' \<and> first_s_index ls = length pre"
proof (induction ls)
  case Nil
  then show ?case by (simp add: first_s_line_def)
next
  case (Cons a ls)
  show ?case
  proof (cases "startswith a ''S''")
    case True
    then have "a = c" using Cons.prems by (simp add: first_s_line_def)
    then have "a # ls = [] @ c # ls \<and> (\<forall>l\<in>set []. \<not> startswith l ''S'') \<and>
      startswith c ''S'' \<and> first_s_index (a # ls) = length ([] :: string list)"
      using True by (simp add: first_s_index_def)
    then show ?thesis by blast
  next
    case False
    then have "first_s_line ls = Some c" using Cons.prems by (simp add: first_s_line_def)
    then obtain pre post where h: "ls = pre @ c # post" "\<forall>l\<in>set pre. \<not> startswith l ''S''"
      "startswith c ''S''" "first_s_index ls = length pre"
      using Cons.IH by blast
    have "a # ls = (a # pre) @ c # post \<and> (\<forall>l\<in>set (a # pre). \<not> startswith l ''S'') \<and>
      startswith c ''S'' \<and> first_s_index (a # ls) = length (a # pre)"
      using h False by (simp add: first_s_index_def)
    then show ?thesis by blast
  qed
qed

lemma first_s_line_split:
  "(\<forall>l\<in>set pre. \<not> startswith l ''S'') \<Longrightarrow> startswith c ''S'' \<Longrightarrow>
   first_s_line (pre @ c # post) = Some c \<and> first_s_index (pre @ c # post) = length pre"
  by (induction pre) (auto simp: first_s_line_def first_s_index_def)


section \<open>Facts about the translation of line ends\<close>

lemma decode_newlines_Cons:
  "c \<noteq> carriage_return \<Longrightarrow> decode_newlines (c # cs) = c # decode_newlines cs"
  by (cases cs) auto

lemma cr_free_decode: "cr_free (decode_newlines held)"
  unfolding cr_free_def by (induction held rule: decode_newlines.induct) auto

lemma encode_newlines_append:
  "encode_newlines sep (a @ b) = encode_newlines sep a @ encode_newlines sep b"
  by (induction a) auto

lemma encode_newlines_concat:
  "encode_newlines sep (concat ls) = concat (map (encode_newlines sep) ls)"
  by (induction ls) (auto simp: encode_newlines_append)

lemma decode_encode:
  assumes "platform_linesep sep" and "cr_free t"
  shows "decode_newlines (encode_newlines sep t) = t"
  using assms(2)
proof (induction t)
  case Nil
  then show ?case by simp
next
  case (Cons c t)
  then have c: "c \<noteq> carriage_return" and t: "cr_free t" by (auto simp: cr_free_def)
  have ih: "decode_newlines (encode_newlines sep t) = t" using Cons.IH t by simp
  show ?case
  proof (cases "c = newline")
    case True
    then show ?thesis using assms(1) ih
      by (auto simp: platform_linesep_def decode_newlines_Cons)
  next
    case False
    then show ?thesis using c ih by (simp add: decode_newlines_Cons)
  qed
qed

lemma cr_free_append: "cr_free (a @ b) \<longleftrightarrow> cr_free a \<and> cr_free b"
  by (auto simp: cr_free_def)

lemma cr_free_concat: "cr_free (concat ls) \<longleftrightarrow> (\<forall>l\<in>set ls. cr_free l)"
  by (auto simp: cr_free_def)

lemma cr_free_file_lines: "cr_free t \<Longrightarrow> l \<in> set (file_lines t) \<Longrightarrow> cr_free l"
proof -
  assume "cr_free t" and l: "l \<in> set (file_lines t)"
  then have "cr_free (concat (file_lines t))" by (simp add: concat_file_lines)
  then show "cr_free l" using l by (simp add: cr_free_concat)
qed

lemma cr_free_s_line: "one_line sp \<Longrightarrow> cr_free (s_line sp)"
  by (simp add: one_line_def cr_free_def s_line_def)




section \<open>Facts about the rewriter\<close>

lemma read_text_Some:
  "read_text w p = Some text \<longleftrightarrow> (\<exists>held. contents w p = Some held \<and> text = decode_newlines held)"
  by (auto simp: read_text_def)

lemma cr_free_read_text: "read_text w p = Some text \<Longrightarrow> cr_free text"
  by (auto simp: read_text_Some cr_free_decode)

lemma update_no_s:
  assumes "read_text w p = Some text" and "first_s_line (file_lines text) = None"
  shows "update_file_spindle_speed p sp w =
     (if p \<in> writable w then Inr (written p text w) else Inl IOError)"
proof -
  obtain held where h: "contents w p = Some held" and t: "text = decode_newlines held"
    using assms(1) by (auto simp: read_text_Some)
  have "scan_lines sp (file_lines text) False [] = Some ([] @ file_lines text)"
    using assms(2) by (intro scan_lines_no_s) (simp add: first_s_line_None)
  then show ?thesis using h t
    by (simp add: update_file_spindle_speed_def written_def concat_file_lines)
qed

lemma update_s:
  assumes "read_text w p = Some text" and "file_lines text = pre @ c # post"
    and "\<forall>l\<in>set pre. \<not> startswith l ''S''" and "startswith c ''S''"
  shows "update_file_spindle_speed p sp w =
     (if contains (s_check sp) c then Inr (skipped p w)
      else if p \<in> writable w then Inr (written p (concat pre @ s_line sp @ concat post) w)
      else Inl IOError)"
proof -
  obtain held where h: "contents w p = Some held" and t: "text = decode_newlines held"
    using assms(1) by (auto simp: read_text_Some)
  have "scan_lines sp (file_lines text) False [] =
      (if contains (s_check sp) c then None else Some ([] @ pre @ s_line sp # post))"
    unfolding assms(2) by (rule scan_lines_split [OF assms(3) assms(4)])
  then show ?thesis using h t
    by (simp add: update_file_spindle_speed_def written_def skipped_def)
qed

lemma skipped_neq_written: "skipped p w \<noteq> written q text w"
proof
  assume "skipped p w = written q text w"
  then have "opened (skipped p w) = opened (written q text w)" by simp
  then show False by (simp add: skipped_def written_def)
qed

lemma contents_skipped [simp]: "contents (skipped p w) = contents w"
  by (simp add: skipped_def)

lemma contents_written [simp]:
  "contents (written p t w) = (contents w)(p \<mapsto> encode_newlines (linesep w) t)"
  by (simp add: written_def)

lemma linesep_skipped [simp]: "linesep (skipped p w) = linesep w"
  by (simp add: skipped_def)

lemma linesep_written [simp]: "linesep (written p t w) = linesep w"
  by (simp add: written_def)

lemma writable_skipped [simp]: "writable (skipped p w) = writable w"
  by (simp add: skipped_def)

lemma writable_written [simp]: "writable (written p t w) = writable w"
  by (simp add: written_def)

lemma read_text_skipped [simp]: "read_text (skipped p w) = read_text w"
  by (simp add: read_text_def fun_eq_iff)

lemma read_text_written:
  assumes "platform_linesep (linesep w)" and "cr_free t"
  shows "read_text (written p t w) p = Some t"
  using assms by (simp add: read_text_def decode_encode)

lemma endswith_single: "endswith s [c] \<longleftrightarrow> s \<noteq> [] \<and> last s = c"
proof (cases "rev s")
  case Nil
  then show ?thesis by (simp add: endswith_def)
next
  case (Cons a r)
  then have "s = rev r @ [a]" by (simp add: rev_eq_Cons_iff)
  then show ?thesis using Cons by (auto simp add: endswith_def)
qed

lemma contains_check_line: "contains (s_check sp) (s_line sp)"
proof -
  have "s_line sp = [] @ s_check sp @ (''M3'' @ [newline])" by (simp add: s_check_def s_line_def)
  then show ?thesis unfolding contains_iff by blast
qed

lemma startswith_s_line: "startswith (s_line sp) ''S''"
  by (simp add: s_line_def)

lemma file_lines_replaced:
  assumes nl: "newline \<notin> set sp" and ls: "file_lines text = pre @ c # post"
  shows "file_lines (concat pre @ s_line sp @ concat post) = pre @ s_line sp # post"
proof -
  have "lines_wf (pre @ c # post)" using lines_wf_file_lines [of "text"] ls by simp
  then have "lines_wf (pre @ s_line sp # post)"
    using terminated_s_line [OF nl] by (rule lines_wf_replace)
  then have "file_lines (concat (pre @ s_line sp # post)) = pre @ s_line sp # post"
    by (rule file_lines_concat)
  then show ?thesis by simp
qed


lemma replaced_split:
  assumes "\<forall>l\<in>set pre. \<not> startswith l ''S''" and "startswith c ''S''"
  shows "replaced sp (pre @ c # post) = concat pre @ s_line sp @ concat post"
  using first_s_line_split [OF assms, of post]
  by (simp add: replaced_def s_line_def)



lemma update_skips:
  assumes "read_text w p = Some text" and "first_s_line (file_lines text) = Some c"
  shows "contains (s_check sp) c \<Longrightarrow> update_file_spindle_speed p sp w = Inr (skipped p w)"
proof -
  assume chk: "contains (s_check sp) c"
  obtain pre post where split: "file_lines text = pre @ c # post"
    and pre: "\<forall>l\<in>set pre. \<not> startswith l ''S''" and c: "startswith c ''S''"
    using first_s_line_Some [OF assms(2)] by blast
  show ?thesis using update_s [OF assms(1) split pre c, of sp] chk by simp
qed

lemma rewritten_lines:
  assumes rd: "read_text w p = Some text" and wr: "p \<in> writable w"
    and sep: "platform_linesep (linesep w)" and sp: "one_line sp"
    and fs: "first_s_line (file_lines text) = Some c" and chk: "\<not> contains (s_check sp) c"
  shows "\<exists>pre post text'. file_lines text = pre @ c # post \<and>
           (\<forall>l\<in>set pre. \<not> startswith l ''S'') \<and>
           first_s_index (file_lines text) = length pre \<and>
           update_file_spindle_speed p sp w = Inr (written p text' w) \<and>
           cr_free text' \<and> cr_free c \<and>
           file_lines text' = pre @ s_line sp # post \<and>
           read_text (written p text' w) p = Some text'"
proof -
  obtain pre post where split: "file_lines text = pre @ c # post"
    and pre: "\<forall>l\<in>set pre. \<not> startswith l ''S''" and c: "startswith c ''S''"
    and idx: "first_s_index (file_lines text) = length pre"
    using first_s_line_Some [OF fs] by blast
  let ?t = "concat pre @ s_line sp @ concat post"
  have upd: "update_file_spindle_speed p sp w = Inr (written p ?t w)"
    using update_s [OF rd split pre c, of sp] chk wr by simp
  have nl: "newline \<notin> set sp" using sp by (simp add: one_line_def)
  have fl: "file_lines ?t = pre @ s_line sp # post"
    using nl split by (rule file_lines_replaced)
  have "cr_free text" using rd by (rule cr_free_read_text)
  then have all: "\<forall>l\<in>set (pre @ c # post). cr_free l"
    using cr_free_file_lines [of "text"] split by auto
  then have cf: "cr_free ?t"
    using cr_free_s_line [OF sp] by (simp add: cr_free_append cr_free_concat)
  have cc: "cr_free c" using all by simp
  have "read_text (written p ?t w) p = Some ?t"
    using sep cf by (rule read_text_written)
  with split pre idx upd cf cc fl show ?thesis by blast
qed

section \<open>The file rewriter: properties\<close>

text \<open>
  Claim C1, as the code has it. On a file that can be read, the rewriter returns without
  opening the file for writing exactly when there is a line that starts with \<open>S\<close> and
  the first such line contains the text \<open>S<speed>\<close> followed by one space, anywhere in the
  line. In every other case it opens the file for writing, which writes a text to the
  file or raises. The text looked for is \<open>S<speed>\<close> and a space, not \<open>S<speed> M3\<close>.
\<close>

theorem skip_iff_check_text:
  assumes "read_text w p = Some text"
  shows "(update_file_spindle_speed p sp w = Inr (skipped p w) \<longleftrightarrow>
            (\<exists>c. first_s_line (file_lines text) = Some c \<and>
                 (\<exists>u v. c = u @ (''S'' @ sp @ '' '') @ v))) \<and>
         (update_file_spindle_speed p sp w = Inr (skipped p w) \<or>
            (\<exists>text'. update_file_spindle_speed p sp w =
               (if p \<in> writable w then Inr (written p text' w) else Inl IOError)))"
proof (cases "first_s_line (file_lines text)")
  case None
  then have "update_file_spindle_speed p sp w =
      (if p \<in> writable w then Inr (written p text w) else Inl IOError)"
    using assms by (simp add: update_no_s)
  then show ?thesis using None
    by (auto simp: skipped_neq_written skipped_neq_written [THEN not_sym])
next
  case (Some c)
  then obtain pre post where split: "file_lines text = pre @ c # post"
    and pre: "\<forall>l\<in>set pre. \<not> startswith l ''S''" and c: "startswith c ''S''"
    using first_s_line_Some by blast
  have chk: "contains (s_check sp) c \<longleftrightarrow> (\<exists>u v. c = u @ (''S'' @ sp @ '' '') @ v)"
    by (simp add: contains_iff s_check_def)
  show ?thesis
  proof (cases "contains (s_check sp) c")
    case True
    then have "update_file_spindle_speed p sp w = Inr (skipped p w)"
      using update_s [OF assms split pre c] by simp
    then show ?thesis using True Some chk by simp
  next
    case False
    then have "update_file_spindle_speed p sp w =
        (if p \<in> writable w then Inr (written p (concat pre @ s_line sp @ concat post) w)
         else Inl IOError)"
      using update_s [OF assms split pre c] by simp
    then show ?thesis using False Some chk
      by (auto simp: skipped_neq_written skipped_neq_written [THEN not_sym])
  qed
qed

text \<open>The statement above at the file \<open>S1000 M4\<close> and the speed \<open>1000\<close>.\<close>

theorem skip_iff_check_text_witness:
  "read_text (single_file [''a.tap''] ''S1000 M4\<newline>'') [''a.tap''] = Some ''S1000 M4\<newline>'' \<and>
   update_file_spindle_speed [''a.tap''] ''1000'' (single_file [''a.tap''] ''S1000 M4\<newline>'') =
     Inr (skipped [''a.tap''] (single_file [''a.tap''] ''S1000 M4\<newline>''))"
proof -
  have h: "read_text (single_file [''a.tap''] ''S1000 M4\<newline>'') [''a.tap''] = Some ''S1000 M4\<newline>''"
    by (simp add: single_file_def read_text_def)
  have l: "first_s_line (file_lines ''S1000 M4\<newline>'') = Some ''S1000 M4\<newline>''"
    by (simp add: first_s_line_def)
  have "''S1000 M4\<newline>'' = [] @ (''S'' @ ''1000'' @ '' '') @ ''M4\<newline>''" by simp
  then have "\<exists>u v. ''S1000 M4\<newline>'' = u @ (''S'' @ ''1000'' @ '' '') @ v" by blast
  with l have "\<exists>c. first_s_line (file_lines ''S1000 M4\<newline>'') = Some c \<and>
      (\<exists>u v. c = u @ (''S'' @ ''1000'' @ '' '') @ v)" by blast
  with skip_iff_check_text [OF h, of "''1000''"] h show ?thesis by blast
qed

text \<open>
  Claim C1 as it is worded fails: the file whose only line is \<open>S1000 M4\<close> is skipped for
  the speed \<open>1000\<close>, and its line does not contain \<open>S1000 M3\<close>.
\<close>

theorem skip_without_canonical_text:
  "first_s_line (file_lines ''S1000 M4\<newline>'') = Some ''S1000 M4\<newline>'' \<and>
   \<not> contains ''S1000 M3'' ''S1000 M4\<newline>'' \<and>
   update_file_spindle_speed [''a.tap''] ''1000'' (single_file [''a.tap''] ''S1000 M4\<newline>'') =
     Inr (skipped [''a.tap''] (single_file [''a.tap''] ''S1000 M4\<newline>''))"
  by (simp add: first_s_line_def update_file_spindle_speed_def single_file_def skipped_def
      s_check_def)

text \<open>
  Claim C4. Whenever the rewriter, on a readable file with a line that starts with \<open>S\<close>,
  neither returns early nor raises, it writes the file with the first such line replaced
  by \<open>S<speed> M3\<close> and a newline; nothing of the old line is kept and every other line
  is written as it was read.
\<close>

theorem replacement_line:
  assumes "read_text w p = Some text"
    and "first_s_line (file_lines text) = Some c"
    and "update_file_spindle_speed p sp w \<noteq> Inr (skipped p w)"
    and "update_file_spindle_speed p sp w \<noteq> Inl IOError"
  shows "file_lines text ! first_s_index (file_lines text) = c \<and>
         update_file_spindle_speed p sp w = Inr (written p (replaced sp (file_lines text)) w)"
proof -
  obtain pre post where split: "file_lines text = pre @ c # post"
    and pre: "\<forall>l\<in>set pre. \<not> startswith l ''S''" and c: "startswith c ''S''"
    and idx: "first_s_index (file_lines text) = length pre"
    using first_s_line_Some [OF assms(2)] by blast
  have "update_file_spindle_speed p sp w =
      Inr (written p (concat pre @ s_line sp @ concat post) w)"
    using update_s [OF assms(1) split pre c, of sp] assms(3) assms(4)
    by (auto split: if_splits)
  moreover have "replaced sp (file_lines text) = concat pre @ s_line sp @ concat post"
    unfolding split by (rule replaced_split [OF pre c])
  moreover have "file_lines text ! first_s_index (file_lines text) = c"
    unfolding idx unfolding split by simp
  ultimately show ?thesis by simp
qed

text \<open>
  The scenario of the specification: \<open>G1 X1\<close>, \<open>S500\<close>, \<open>G1 Y2\<close> with the speed
  \<open>1000\<close> becomes \<open>G1 X1\<close>, \<open>S1000 M3\<close>, \<open>G1 Y2\<close>.
\<close>

theorem replacement_line_witness:
  "update_file_spindle_speed [''a.tap''] ''1000''
     (single_file [''a.tap''] ''G1 X1\<newline>S500\<newline>G1 Y2\<newline>'') =
   Inr (written [''a.tap''] ''G1 X1\<newline>S1000 M3\<newline>G1 Y2\<newline>''
     (single_file [''a.tap''] ''G1 X1\<newline>S500\<newline>G1 Y2\<newline>''))"
proof -
  let ?w = "single_file [''a.tap''] ''G1 X1\<newline>S500\<newline>G1 Y2\<newline>''"
  have h1: "read_text ?w [''a.tap''] = Some ''G1 X1\<newline>S500\<newline>G1 Y2\<newline>''"
    by (simp add: single_file_def read_text_def)
  have h2: "first_s_line (file_lines ''G1 X1\<newline>S500\<newline>G1 Y2\<newline>'') = Some ''S500\<newline>''"
    by (simp add: first_s_line_def)
  have h3: "update_file_spindle_speed [''a.tap''] ''1000'' ?w \<noteq> Inr (skipped [''a.tap''] ?w)"
    by (simp add: update_file_spindle_speed_def single_file_def skipped_def s_check_def)
  have h4: "update_file_spindle_speed [''a.tap''] ''1000'' ?w \<noteq> Inl IOError"
    by (simp add: update_file_spindle_speed_def single_file_def s_check_def)
  have r: "replaced ''1000'' (file_lines ''G1 X1\<newline>S500\<newline>G1 Y2\<newline>'') =
      ''G1 X1\<newline>S1000 M3\<newline>G1 Y2\<newline>''"
    by (simp add: replaced_def first_s_index_def)
  show ?thesis using replacement_line [OF h1 h2 h3 h4] unfolding r by simp
qed

text \<open>
  Claim C10. When the rewriter replaces the first line that starts with \<open>S\<close>, the line
  it puts there ends with a newline whatever the old line ended with. If that line was
  the last of the file and had no newline, the text written ends with a newline and the
  text read did not. (The rewriter raises instead when the file cannot be opened for
  writing.)
\<close>

theorem replacement_ends_with_newline:
  assumes "read_text w p = Some text"
    and "first_s_line (file_lines text) = Some c"
    and "\<not> contains (s_check sp) c"
  shows "update_file_spindle_speed p sp w =
           (if p \<in> writable w then Inr (written p (replaced sp (file_lines text)) w)
            else Inl IOError) \<and>
         endswith (s_line sp) [newline] \<and>
         (Suc (first_s_index (file_lines text)) = length (file_lines text) \<and>
          \<not> endswith c [newline] \<longrightarrow>
            endswith (replaced sp (file_lines text)) [newline] \<and> \<not> endswith text [newline])"
proof -
  obtain pre post where split: "file_lines text = pre @ c # post"
    and pre: "\<forall>l\<in>set pre. \<not> startswith l ''S''" and c: "startswith c ''S''"
    and idx: "first_s_index (file_lines text) = length pre"
    using first_s_line_Some [OF assms(2)] by blast
  have rep: "replaced sp (file_lines text) = concat pre @ s_line sp @ concat post"
    unfolding split by (rule replaced_split [OF pre c])
  have upd: "update_file_spindle_speed p sp w =
      (if p \<in> writable w then Inr (written p (replaced sp (file_lines text)) w)
       else Inl IOError)"
    using update_s [OF assms(1) split pre c, of sp] assms(3) rep by simp
  have nl: "endswith (s_line sp) [newline]"
    by (simp add: endswith_single s_line_def)
  have cne: "c \<noteq> []" using c by auto
  have last_line: "post = []" if "Suc (first_s_index (file_lines text)) = length (file_lines text)"
    using that unfolding idx unfolding split by simp
  have "text = concat pre @ c @ concat post"
    using concat_file_lines [of "text"] unfolding split by simp
  then have old: "post = [] \<Longrightarrow> \<not> endswith c [newline] \<Longrightarrow> \<not> endswith text [newline]"
    using cne by (simp add: endswith_single)
  have new: "post = [] \<Longrightarrow> endswith (replaced sp (file_lines text)) [newline]"
    unfolding rep by (simp add: endswith_single s_line_def)
  show ?thesis using upd nl last_line old new by blast
qed

text \<open>The statement above at the file \<open>G1 X1\<close>, \<open>S500\<close> whose last line has no newline.\<close>

theorem replacement_ends_with_newline_witness:
  "update_file_spindle_speed [''a.tap''] ''1000'' (single_file [''a.tap''] ''G1 X1\<newline>S500'') =
     Inr (written [''a.tap''] ''G1 X1\<newline>S1000 M3\<newline>''
           (single_file [''a.tap''] ''G1 X1\<newline>S500'')) \<and>
   endswith ''G1 X1\<newline>S1000 M3\<newline>'' [newline] \<and>
   \<not> endswith ''G1 X1\<newline>S500'' [newline]"
proof -
  have h1: "read_text (single_file [''a.tap''] ''G1 X1\<newline>S500'') [''a.tap''] = Some ''G1 X1\<newline>S500''"
    by (simp add: single_file_def read_text_def)
  have h2: "first_s_line (file_lines ''G1 X1\<newline>S500'') = Some ''S500''"
    by (simp add: first_s_line_def)
  have h3: "\<not> contains (s_check ''1000'') ''S500''"
    by (simp add: s_check_def)
  have wr: "[''a.tap''] \<in> writable (single_file [''a.tap''] ''G1 X1\<newline>S500'')"
    by (simp add: single_file_def)
  have r: "replaced ''1000'' (file_lines ''G1 X1\<newline>S500'') = ''G1 X1\<newline>S1000 M3\<newline>''"
    by (simp add: replaced_def first_s_index_def)
  have i: "Suc (first_s_index (file_lines ''G1 X1\<newline>S500'')) = length (file_lines ''G1 X1\<newline>S500'')"
    by (simp add: first_s_index_def)
  have e: "\<not> endswith ''S500'' [newline]"
    by (simp add: endswith_def)
  show ?thesis using replacement_ends_with_newline [OF h1 h2 h3] wr i e unfolding r by simp
qed

lemma read_text_written_fun:
  "read_text (written p t w) =
     (read_text w)(p \<mapsto> decode_newlines (encode_newlines (linesep w) t))"
  by (simp add: read_text_def fun_eq_iff)


text \<open>
  Claim C6, as the code has it. Take a file that can be read and written, none of whose
  lines starts with \<open>S\<close>. The rewriter ends normally and writes the file back: the text
  of every file, as reading yields it, is what it was before; what the file holds is its
  text with every line end written as the line separator of the platform, so that the
  file holds the same characters as before when all its line ends were already that
  separator.
\<close>

theorem no_directive_passthrough:
  assumes "contents w p = Some held" and "p \<in> writable w"
    and "platform_linesep (linesep w)"
    and "\<forall>l\<in>set (file_lines (decode_newlines held)). \<not> startswith l ''S''"
  shows "\<exists>w'. update_file_spindle_speed p sp w = Inr w' \<and> read_text w' = read_text w \<and>
           contents w' = (contents w)(p \<mapsto> encode_newlines (linesep w) (decode_newlines held)) \<and>
           (held = encode_newlines (linesep w) (decode_newlines held) \<longrightarrow>
              contents w' = contents w)"
proof -
  let ?t = "decode_newlines held"
  have rd: "read_text w p = Some ?t" using assms(1) by (simp add: read_text_def)
  have "first_s_line (file_lines ?t) = None" using assms(4) by (simp add: first_s_line_None)
  with rd have upd: "update_file_spindle_speed p sp w = Inr (written p ?t w)"
    using assms(2) by (simp add: update_no_s)
  have "decode_newlines (encode_newlines (linesep w) ?t) = ?t"
    using assms(3) cr_free_decode by (rule decode_encode)
  then have "read_text (written p ?t w) = (read_text w)(p \<mapsto> ?t)"
    by (simp add: read_text_written_fun)
  then have same: "read_text (written p ?t w) = read_text w"
    using rd by (simp add: map_upd_triv)
  have held: "contents (written p ?t w) = (contents w)(p \<mapsto> encode_newlines (linesep w) ?t)"
    by simp
  have "contents (written p ?t w) = contents w"
    if "held = encode_newlines (linesep w) ?t"
  proof -
    have "contents w p = Some (encode_newlines (linesep w) ?t)"
      using assms(1) that by simp
    then show ?thesis unfolding held by (rule map_upd_triv)
  qed
  with upd same held show ?thesis by blast
qed

text \<open>
  The statement above at the file \<open>G1 X1\<close>, \<open>G1 Y2\<close> with line feeds, where the line
  separator is the line feed: the file holds the same characters afterwards.
\<close>

theorem no_directive_passthrough_witness:
  "\<exists>w'. update_file_spindle_speed [''a.tap''] ''1000''
            (single_file [''a.tap''] ''G1 X1\<newline>G1 Y2\<newline>'') = Inr w' \<and>
         read_text w' = read_text (single_file [''a.tap''] ''G1 X1\<newline>G1 Y2\<newline>'') \<and>
         contents w' = contents (single_file [''a.tap''] ''G1 X1\<newline>G1 Y2\<newline>'')"
proof -
  let ?w = "single_file [''a.tap''] ''G1 X1\<newline>G1 Y2\<newline>''"
  have h: "contents ?w [''a.tap''] = Some ''G1 X1\<newline>G1 Y2\<newline>''"
    by (simp add: single_file_def)
  have wr: "[''a.tap''] \<in> writable ?w" by (simp add: single_file_def)
  have sep: "platform_linesep (linesep ?w)" by (simp add: single_file_def platform_linesep_def)
  have n: "\<forall>l\<in>set (file_lines (decode_newlines ''G1 X1\<newline>G1 Y2\<newline>'')). \<not> startswith l ''S''"
    by simp
  have c: "''G1 X1\<newline>G1 Y2\<newline>'' =
      encode_newlines (linesep ?w) (decode_newlines ''G1 X1\<newline>G1 Y2\<newline>'')"
    by (simp add: single_file_def)
  show ?thesis using no_directive_passthrough [OF h wr sep n, of "''1000''"] c by blast
qed

text \<open>
  Claim C6 as it is worded fails, since the file is written back in text mode. No line of
  \<open>G1 X1\<close>, \<open>G1 Y2\<close> starts with \<open>S\<close>. Where the line separator is the line feed, the
  file with carriage return and line feed at the end of each line holds line feeds alone
  afterwards; where the separator is carriage return and line feed, the file with line
  feeds holds a carriage return before each line feed afterwards.
\<close>

theorem rewrite_changes_line_ends:
  "first_s_line (file_lines (decode_newlines
       (''G1 X1'' @ [carriage_return, newline] @ ''G1 Y2'' @ [carriage_return, newline]))) = None \<and>
   update_file_spindle_speed [''a.tap''] ''1000''
       (single_file [''a.tap'']
         (''G1 X1'' @ [carriage_return, newline] @ ''G1 Y2'' @ [carriage_return, newline])) =
     Inr (written [''a.tap''] ''G1 X1\<newline>G1 Y2\<newline>''
       (single_file [''a.tap'']
         (''G1 X1'' @ [carriage_return, newline] @ ''G1 Y2'' @ [carriage_return, newline]))) \<and>
   contents (written [''a.tap''] ''G1 X1\<newline>G1 Y2\<newline>''
       (single_file [''a.tap'']
         (''G1 X1'' @ [carriage_return, newline] @ ''G1 Y2'' @ [carriage_return, newline])))
     [''a.tap''] = Some ''G1 X1\<newline>G1 Y2\<newline>'' \<and>
   ''G1 X1\<newline>G1 Y2\<newline>'' \<noteq>
     ''G1 X1'' @ [carriage_return, newline] @ ''G1 Y2'' @ [carriage_return, newline] \<and>
   first_s_line (file_lines (decode_newlines ''G1 X1\<newline>G1 Y2\<newline>'')) = None \<and>
   update_file_spindle_speed [''a.tap''] ''1000''
       (single_file_crlf [''a.tap''] ''G1 X1\<newline>G1 Y2\<newline>'') =
     Inr (written [''a.tap''] ''G1 X1\<newline>G1 Y2\<newline>''
       (single_file_crlf [''a.tap''] ''G1 X1\<newline>G1 Y2\<newline>'')) \<and>
   contents (written [''a.tap''] ''G1 X1\<newline>G1 Y2\<newline>''
       (single_file_crlf [''a.tap''] ''G1 X1\<newline>G1 Y2\<newline>'')) [''a.tap''] =
     Some (''G1 X1'' @ [carriage_return, newline] @ ''G1 Y2'' @ [carriage_return, newline])"
  by (simp add: first_s_line_def update_file_spindle_speed_def single_file_def
      single_file_crlf_def written_def)









text \<open>
  Claim C3. For a file that can be read and written and a speed that is one line, as the
  program reads it from the console, a second run of the rewriter with the same speed,
  after a first one, ends normally and leaves every file holding what the first run left.
  When the file has a line that starts with \<open>S\<close> the second run returns without writing.
\<close>

theorem rewrite_idempotent:
  assumes "contents w p = Some held" and "p \<in> writable w"
    and "platform_linesep (linesep w)" and "one_line sp"
  shows "\<exists>w1 w2. update_file_spindle_speed p sp w = Inr w1 \<and>
           update_file_spindle_speed p sp w1 = Inr w2 \<and> contents w2 = contents w1 \<and>
           (first_s_line (file_lines (decode_newlines held)) \<noteq> None \<longrightarrow> w2 = skipped p w1)"
proof -
  let ?t = "decode_newlines held"
  have rd: "read_text w p = Some ?t" using assms(1) by (simp add: read_text_def)
  show ?thesis
  proof (cases "first_s_line (file_lines ?t)")
    case None
    have one: "update_file_spindle_speed p sp w = Inr (written p ?t w)"
      using rd None assms(2) by (simp add: update_no_s)
    have rd1: "read_text (written p ?t w) p = Some ?t"
      using assms(3) cr_free_decode by (rule read_text_written)
    have two: "update_file_spindle_speed p sp (written p ?t w) =
        Inr (written p ?t (written p ?t w))"
      using rd1 None assms(2) by (simp add: update_no_s)
    have "contents (written p ?t (written p ?t w)) = contents (written p ?t w)"
      by simp
    with one two None show ?thesis by simp
  next
    case (Some c)
    show ?thesis
    proof (cases "contains (s_check sp) c")
      case True
      have one: "update_file_spindle_speed p sp w = Inr (skipped p w)"
        using update_skips [OF rd Some] True by simp
      have "read_text (skipped p w) p = Some ?t" using rd by simp
      then have two: "update_file_spindle_speed p sp (skipped p w) =
          Inr (skipped p (skipped p w))"
        using update_skips [OF _ Some] True by simp
      show ?thesis using one two by simp
    next
      case False
      obtain pre post t' where pre: "\<forall>l\<in>set pre. \<not> startswith l ''S''"
        and upd: "update_file_spindle_speed p sp w = Inr (written p t' w)"
        and new: "file_lines t' = pre @ s_line sp # post"
        and rd1: "read_text (written p t' w) p = Some t'"
        using rewritten_lines [OF rd assms(2) assms(3) assms(4) Some False] by blast
      have "update_file_spindle_speed p sp (written p t' w) =
          (if contains (s_check sp) (s_line sp) then Inr (skipped p (written p t' w))
           else if p \<in> writable (written p t' w)
             then Inr (written p (concat pre @ s_line sp @ concat post) (written p t' w))
           else Inl IOError)"
        using rd1 new pre startswith_s_line by (rule update_s)
      then have two: "update_file_spindle_speed p sp (written p t' w) =
          Inr (skipped p (written p t' w))"
        by (simp add: contains_check_line)
      show ?thesis using upd two by simp
    qed
  qed
qed

text \<open>The statement above at the file \<open>G1 X1\<close>, \<open>S500\<close>, \<open>G1 Y2\<close> and the speed \<open>1000\<close>.\<close>

theorem rewrite_idempotent_witness:
  "\<exists>w1 w2. update_file_spindle_speed [''a.tap''] ''1000''
        (single_file [''a.tap''] ''G1 X1\<newline>S500\<newline>G1 Y2\<newline>'') = Inr w1 \<and>
     update_file_spindle_speed [''a.tap''] ''1000'' w1 = Inr w2 \<and> contents w2 = contents w1 \<and>
     w2 = skipped [''a.tap''] w1"
proof -
  let ?t = "''G1 X1\<newline>S500\<newline>G1 Y2\<newline>''"
  let ?w = "single_file [''a.tap''] ?t"
  have h1: "contents ?w [''a.tap''] = Some ?t" by (simp add: single_file_def)
  have h2: "[''a.tap''] \<in> writable ?w" by (simp add: single_file_def)
  have h3: "platform_linesep (linesep ?w)" by (simp add: single_file_def platform_linesep_def)
  have h4: "one_line ''1000''" by (simp add: one_line_def)
  have h5: "first_s_line (file_lines (decode_newlines ?t)) \<noteq> None"
    by (simp add: first_s_line_def)
  show ?thesis using rewrite_idempotent [OF h1 h2 h3 h4] h5 by blast
qed

section \<open>The directory walker: properties\<close>

lemma read_paths_append: "read_paths (a @ b) = read_paths a @ read_paths b"
  by (induction a rule: read_paths.induct) auto

lemma update_effect:
  assumes "p \<in> dom (contents w)" and "p \<in> writable w"
  shows "\<exists>w'. update_file_spindle_speed p sp w = Inr w' \<and>
           dom (contents w') = dom (contents w) \<and> writable w' = writable w \<and>
           read_paths (opened w') = read_paths (opened w) @ [p]"
proof -
  obtain held where h: "contents w p = Some held" using assms(1) by auto
  have d: "insert p (dom (contents w)) = dom (contents w)" using assms(1) by auto
  show ?thesis
  proof (cases "scan_lines sp (file_lines (decode_newlines held)) False []")
    case None
    then have "update_file_spindle_speed p sp w = Inr (skipped p w)"
      using h by (simp add: update_file_spindle_speed_def skipped_def)
    then show ?thesis by (simp add: skipped_def read_paths_append)
  next
    case (Some a)
    then have "update_file_spindle_speed p sp w = Inr (written p (concat a) w)"
      using h assms(2) by (simp add: update_file_spindle_speed_def written_def)
    then show ?thesis using d by (simp add: written_def read_paths_append)
  qed
qed

lemma rewrite_each_append:
  "rewrite_each sp (a @ b) w =
     (case rewrite_each sp a w of Inl e \<Rightarrow> Inl e | Inr w' \<Rightarrow> rewrite_each sp b w')"
  by (induction a arbitrary: w) (auto split: sum.splits)

lemma rewrite_each_run:
  assumes "\<forall>p\<in>set ps. p \<in> dom (contents w) \<and> p \<in> writable w"
  shows "\<exists>w'. rewrite_each sp ps w = Inr w' \<and>
           dom (contents w') = dom (contents w) \<and> writable w' = writable w \<and>
           read_paths (opened w') = read_paths (opened w) @ ps"
  using assms
proof (induction ps arbitrary: w)
  case Nil
  then show ?case by simp
next
  case (Cons p ps)
  then have "p \<in> dom (contents w)" and "p \<in> writable w" by auto
  then obtain w1 where upd: "update_file_spindle_speed p sp w = Inr w1"
    and dm: "dom (contents w1) = dom (contents w)" and wr: "writable w1 = writable w"
    and rd: "read_paths (opened w1) = read_paths (opened w) @ [p]"
    using update_effect by blast
  have "\<forall>q\<in>set ps. q \<in> dom (contents w1) \<and> q \<in> writable w1"
    using Cons.prems dm wr by simp
  from Cons.IH [OF this] obtain w' where run: "rewrite_each sp ps w1 = Inr w'"
    and dm': "dom (contents w') = dom (contents w1)" and wr': "writable w' = writable w1"
    and rd': "read_paths (opened w') = read_paths (opened w1) @ ps"
    by blast
  have "rewrite_each sp (p # ps) w = Inr w'" using upd run by simp
  then show ?case using dm dm' wr wr' rd rd' by simp
qed

lemma process_files_eq:
  assumes "processed_files st + length (filter is_tap fs) \<le> total_files st"
  shows "process_files sp root fs st =
     (case rewrite_each sp (map (\<lambda>f. root @ [f]) (filter is_tap fs)) (world_of st) of
        Inl e \<Rightarrow> Inl e
      | Inr w' \<Rightarrow>
          Inr (st\<lparr>world_of := w',
                  processed_files := processed_files st + length (filter is_tap fs)\<rparr>))"
  using assms
proof (induction fs arbitrary: st)
  case Nil
  then show ?case by simp
next
  case (Cons f fs)
  show ?case
  proof (cases "is_tap f")
    case False
    then show ?thesis using Cons.IH [of st] Cons.prems by (simp split: sum.splits)
  next
    case True
    show ?thesis
    proof (cases "update_file_spindle_speed (root @ [f]) sp (world_of st)")
      case (Inl e)
      then show ?thesis using True by simp
    next
      case (Inr w1)
      let ?st = "st\<lparr>world_of := w1, processed_files := processed_files st + 1\<rparr>"
      have pos: "total_files ?st \<noteq> 0" using Cons.prems True by simp
      have b: "processed_files ?st + length (filter is_tap fs) \<le> total_files ?st"
        using Cons.prems True by simp
      have "process_files sp root (f # fs) st = process_files sp root fs ?st"
        using True Inr pos by (simp add: Let_def)
      also have "\<dots> =
         (case rewrite_each sp (map (\<lambda>f. root @ [f]) (filter is_tap fs)) (world_of ?st) of
            Inl e \<Rightarrow> Inl e
          | Inr w' \<Rightarrow>
              Inr (?st\<lparr>world_of := w',
                  processed_files := processed_files ?st + length (filter is_tap fs)\<rparr>))"
        by (rule Cons.IH [OF b])
      finally show ?thesis using True Inr by (simp split: sum.splits)
    qed
  qed
qed

lemma process_walk_eq:
  assumes "processed_files st + length (walk_taps items) \<le> total_files st"
  shows "process_walk sp items st =
     (case rewrite_each sp (walk_taps items) (world_of st) of
        Inl e \<Rightarrow> Inl e
      | Inr w' \<Rightarrow>
          Inr (st\<lparr>world_of := w',
                  processed_files := processed_files st + length (walk_taps items)\<rparr>))"
  using assms
proof (induction items arbitrary: st)
  case Nil
  then show ?case by simp
next
  case (Cons item items)
  obtain root dirs fs where item: "item = (root, dirs, fs)" by (cases item) auto
  let ?here = "map (\<lambda>f. root @ [f]) (filter is_tap fs)"
  have a: "processed_files st + length (filter is_tap fs) \<le> total_files st"
    using Cons.prems item by simp
  note pf = process_files_eq [OF a, of sp root]
  show ?case
  proof (cases "rewrite_each sp ?here (world_of st)")
    case (Inl e)
    then show ?thesis using pf item by (simp add: rewrite_each_append)
  next
    case (Inr w1)
    let ?st = "st\<lparr>world_of := w1,
        processed_files := processed_files st + length (filter is_tap fs)\<rparr>"
    have one: "process_files sp root fs st = Inr ?st" using pf Inr by simp
    have b: "processed_files ?st + length (walk_taps items) \<le> total_files ?st"
      using Cons.prems item by simp
    have "process_walk sp (item # items) st = process_walk sp items ?st"
      using item one by simp
    also have "\<dots> =
       (case rewrite_each sp (walk_taps items) (world_of ?st) of
          Inl e \<Rightarrow> Inl e
        | Inr w' \<Rightarrow>
            Inr (?st\<lparr>world_of := w',
                processed_files := processed_files ?st + length (walk_taps items)\<rparr>))"
      by (rule Cons.IH [OF b])
    finally show ?thesis using item Inr
      by (simp add: rewrite_each_append split: sum.splits)
  qed
qed

lemma walk_taps_append: "walk_taps (a @ b) = walk_taps a @ walk_taps b"
  by (induction a rule: walk_taps.induct) auto

lemma mset_walk_taps:
  "mset (walk_taps (walk folder ents)) = mset (tap_files folder ents)"
  "mset (map (\<lambda>f. folder @ [f]) (filter is_tap (file_names ents))) +
     mset (walk_taps (walk_subdirs folder ents)) = mset (tap_files folder ents)"
proof (induction folder ents and folder ents rule: walk_walk_subdirs.induct)
  case (1 folder ents)
  then show ?case by simp
next
  case (2 folder)
  show ?case by simp
next
  case (3 folder n es)
  then show ?case by simp
next
  case (4 folder n cs es)
  have "mset (map (\<lambda>f. folder @ [f]) (filter is_tap (file_names (Dir n cs # es)))) +
      mset (walk_taps (walk_subdirs folder (Dir n cs # es))) =
      mset (walk_taps (walk (folder @ [n]) cs)) +
      (mset (map (\<lambda>f. folder @ [f]) (filter is_tap (file_names es))) +
       mset (walk_taps (walk_subdirs folder es)))"
    by (simp add: walk_taps_append del: walk.simps)
  also have "\<dots> = mset (tap_files (folder @ [n]) cs) + mset (tap_files folder es)"
    unfolding "4.IH" by (rule refl)
  finally show ?case by simp
qed

lemma length_rglob_tap:
  "length (rglob_tap folder ents) = length (tap_files folder ents) + length (tap_dirs folder ents)"
  by (induction folder ents rule: rglob_tap.induct) auto

lemma last_tap_files: "p \<in> set (tap_files folder ents) \<Longrightarrow> p \<noteq> [] \<and> is_tap (last p)"
  by (induction folder ents rule: tap_files.induct) (auto split: if_splits)

lemma last_other_files: "p \<in> set (other_files folder ents) \<Longrightarrow> p \<noteq> [] \<and> \<not> is_tap (last p)"
  by (induction folder ents rule: other_files.induct) (auto split: if_splits)

lemma walker_eq:
  "update_spindle_speed ents folder sp w =
     (case rewrite_each sp (walk_taps (walk folder ents)) w of
        Inl e \<Rightarrow> Inl e
      | Inr w' \<Rightarrow>
          Inr \<lparr>world_of = w', processed_files = length (tap_files folder ents),
               total_files = length (rglob_tap folder ents)\<rparr>)"
proof -
  let ?st = "\<lparr>world_of = w, processed_files = 0, total_files = length (rglob_tap folder ents)\<rparr>"
  have l: "length (walk_taps (walk folder ents)) = length (tap_files folder ents)"
    using mset_walk_taps(1) [of folder ents] by (rule mset_eq_length)
  have b: "processed_files ?st + length (walk_taps (walk folder ents)) \<le> total_files ?st"
    using l by (simp add: length_rglob_tap)
  show ?thesis
    unfolding update_spindle_speed_def Let_def process_walk_eq [OF b, of sp]
    using l by (simp split: sum.splits)
qed

text \<open>
  With no plain file whose name ends with \<open>.tap\<close>, the run ends normally, nothing is
  opened, no file is counted and the division of the progress bar is never reached; the
  total is the number of subdirectories whose name ends with \<open>.tap\<close>.
\<close>

lemma no_tap_files_run:
  assumes "tap_files folder ents = []"
  shows "update_spindle_speed ents folder sp w =
     Inr \<lparr>world_of = w, processed_files = 0, total_files = length (tap_dirs folder ents)\<rparr>"
proof -
  have "mset (walk_taps (walk folder ents)) = {#}"
    using mset_walk_taps(1) [of folder ents] assms by simp
  then have "walk_taps (walk folder ents) = []" by simp
  then show ?thesis using assms by (simp add: walker_eq length_rglob_tap del: walk.simps)
qed

text \<open>
  When the run ends normally, the count of processed files is the total less the number
  of subdirectories whose name ends with \<open>.tap\<close>.
\<close>

lemma processed_within_total:
  assumes "update_spindle_speed ents folder sp w = Inr st"
  shows "processed_files st \<le> total_files st \<and>
         total_files st = processed_files st + length (tap_dirs folder ents)"
  using assms unfolding walker_eq
  by (auto simp: length_rglob_tap split: sum.splits)

text \<open>
  Claim C8. The run of the walker is the rewriter called with the given speed on the
  plain files of the tree whose name ends with \<open>.tap\<close>, one call after the other: on each
  of them as often as the tree has it and whatever its depth, and on no plain file with
  another name. The world it leaves is the one these calls leave, and the count of
  processed files is the number of \<open>.tap\<close> files; a call that raises ends the run. When
  every \<open>.tap\<close> file can be opened for reading and for writing, no call raises and each
  of the calls has opened its file.
\<close>

theorem traversal_completeness:
  "\<exists>calls. mset calls = mset (tap_files folder ents) \<and>
     set calls \<inter> set (other_files folder ents) = {} \<and>
     update_spindle_speed ents folder sp w =
       (case rewrite_each sp calls w of
          Inl e \<Rightarrow> Inl e
        | Inr w' \<Rightarrow>
            Inr \<lparr>world_of = w', processed_files = length (tap_files folder ents),
                 total_files = length (rglob_tap folder ents)\<rparr>) \<and>
     ((\<forall>p\<in>set (tap_files folder ents). p \<in> dom (contents w) \<and> p \<in> writable w) \<longrightarrow>
        (\<exists>w'. rewrite_each sp calls w = Inr w' \<and>
              read_paths (opened w') = read_paths (opened w) @ calls))"
proof -
  let ?calls = "walk_taps (walk folder ents)"
  have m: "mset ?calls = mset (tap_files folder ents)"
    by (rule mset_walk_taps(1))
  then have s: "set ?calls = set (tap_files folder ents)"
    by (rule mset_eq_setD)
  then have d: "set ?calls \<inter> set (other_files folder ents) = {}"
    using last_tap_files last_other_files by blast
  have r: "\<exists>w'. rewrite_each sp ?calls w = Inr w' \<and>
      read_paths (opened w') = read_paths (opened w) @ ?calls"
    if "\<forall>p\<in>set (tap_files folder ents). p \<in> dom (contents w) \<and> p \<in> writable w"
  proof -
    have "\<forall>p\<in>set ?calls. p \<in> dom (contents w) \<and> p \<in> writable w"
      using that s by simp
    from rewrite_each_run [OF this, of sp] show ?thesis by blast
  qed
  show ?thesis
    using m d r walker_eq [of ents folder sp w]
    by (intro exI [of _ ?calls]) blast
qed

text \<open>
  The statement above at a tree with two \<open>.tap\<close> files, one of them in a subdirectory,
  and two other files.
\<close>

theorem traversal_completeness_witness:
  "\<exists>calls. mset calls = {#[''jobs'', ''a.tap''], [''jobs'', ''sub'', ''b.tap'']#} \<and>
     set calls \<inter> {[''jobs'', ''readme.txt''], [''jobs'', ''sub'', ''c.txt'']} = {} \<and>
     update_spindle_speed
        [File ''a.tap'', File ''readme.txt'', Dir ''sub'' [File ''c.txt'', File ''b.tap'']]
        [''jobs''] ''1000''
        \<lparr>contents = [[''jobs'', ''a.tap''] \<mapsto> ''S500\<newline>'', [''jobs'', ''sub'', ''b.tap''] \<mapsto> ''G1\<newline>''],
         writable = {[''jobs'', ''a.tap''], [''jobs'', ''sub'', ''b.tap'']},
         linesep = [newline], opened = []\<rparr> =
       (case rewrite_each ''1000'' calls
          \<lparr>contents = [[''jobs'', ''a.tap''] \<mapsto> ''S500\<newline>'', [''jobs'', ''sub'', ''b.tap''] \<mapsto> ''G1\<newline>''],
           writable = {[''jobs'', ''a.tap''], [''jobs'', ''sub'', ''b.tap'']},
           linesep = [newline], opened = []\<rparr> of
          Inl e \<Rightarrow> Inl e
        | Inr w' \<Rightarrow> Inr \<lparr>world_of = w', processed_files = 2, total_files = 2\<rparr>) \<and>
     (\<exists>w'. rewrite_each ''1000'' calls
          \<lparr>contents = [[''jobs'', ''a.tap''] \<mapsto> ''S500\<newline>'', [''jobs'', ''sub'', ''b.tap''] \<mapsto> ''G1\<newline>''],
           writable = {[''jobs'', ''a.tap''], [''jobs'', ''sub'', ''b.tap'']},
           linesep = [newline], opened = []\<rparr> = Inr w' \<and>
        read_paths (opened w') = calls)"
proof -
  let ?ents = "[File ''a.tap'', File ''readme.txt'', Dir ''sub'' [File ''c.txt'', File ''b.tap'']]"
  let ?w = "\<lparr>contents = [[''jobs'', ''a.tap''] \<mapsto> ''S500\<newline>'', [''jobs'', ''sub'', ''b.tap''] \<mapsto> ''G1\<newline>''],
         writable = {[''jobs'', ''a.tap''], [''jobs'', ''sub'', ''b.tap'']},
         linesep = [newline], opened = []\<rparr>"
  have t: "tap_files [''jobs''] ?ents = [[''jobs'', ''a.tap''], [''jobs'', ''sub'', ''b.tap'']]"
    by (simp add: endswith_def)
  have o: "other_files [''jobs''] ?ents = [[''jobs'', ''readme.txt''], [''jobs'', ''sub'', ''c.txt'']]"
    by (simp add: endswith_def)
  have g: "length (rglob_tap [''jobs''] ?ents) = 2"
    by (simp add: endswith_def)
  have h: "\<forall>p\<in>set (tap_files [''jobs''] ?ents). p \<in> dom (contents ?w) \<and> p \<in> writable ?w"
    unfolding t by simp
  have l: "length [[''jobs'', ''a.tap''], [''jobs'', ''sub'', ''b.tap'']] = 2" by simp
  from traversal_completeness [of "[''jobs'']" ?ents "''1000''" ?w]
  obtain calls where c1: "mset calls = mset (tap_files [''jobs''] ?ents)"
    and c2: "set calls \<inter> set (other_files [''jobs''] ?ents) = {}"
    and c3: "update_spindle_speed ?ents [''jobs''] ''1000'' ?w =
       (case rewrite_each ''1000'' calls ?w of
          Inl e \<Rightarrow> Inl e
        | Inr w' \<Rightarrow>
            Inr \<lparr>world_of = w', processed_files = length (tap_files [''jobs''] ?ents),
                 total_files = length (rglob_tap [''jobs''] ?ents)\<rparr>)"
    and c4: "(\<forall>p\<in>set (tap_files [''jobs''] ?ents). p \<in> dom (contents ?w) \<and> p \<in> writable ?w) \<longrightarrow>
        (\<exists>w'. rewrite_each ''1000'' calls ?w = Inr w' \<and>
              read_paths (opened w') = read_paths (opened ?w) @ calls)"
    by blast
  have c1': "mset calls = {#[''jobs'', ''a.tap''], [''jobs'', ''sub'', ''b.tap'']#}"
    using c1 unfolding t by simp
  have c2': "set calls \<inter> {[''jobs'', ''readme.txt''], [''jobs'', ''sub'', ''c.txt'']} = {}"
    using c2 unfolding o by simp
  have c3': "update_spindle_speed ?ents [''jobs''] ''1000'' ?w =
       (case rewrite_each ''1000'' calls ?w of
          Inl e \<Rightarrow> Inl e
        | Inr w' \<Rightarrow> Inr \<lparr>world_of = w', processed_files = 2, total_files = 2\<rparr>)"
    using c3 unfolding t g l .
  have c4': "\<exists>w'. rewrite_each ''1000'' calls ?w = Inr w' \<and> read_paths (opened w') = calls"
    using c4 h by simp
  show ?thesis using c1' c2' c3' c4' by (intro exI [of _ calls] conjI)
qed

text \<open>
  Claim C7, at a directory that holds no plain file with a name ending in \<open>.tap\<close> but a
  subdirectory named \<open>old.tap\<close>. The run ends normally with no file processed and no
  division made, as the claim says, but with a total of 1 where the claim says 0: the
  count taken before the walk matches the pattern against directory names as well.
  Lemma \<open>no_tap_files_run\<close> above is the general statement.
\<close>

theorem directory_named_tap_counted_alone:
  "tap_files [''jobs''] [Dir ''old.tap'' [File ''notes.txt'']] = [] \<and>
   update_spindle_speed [Dir ''old.tap'' [File ''notes.txt'']] [''jobs''] ''1000''
       (single_file [''jobs'', ''old.tap'', ''notes.txt''] ''hello'') =
     Inr \<lparr>world_of = single_file [''jobs'', ''old.tap'', ''notes.txt''] ''hello'',
          processed_files = 0, total_files = 1\<rparr>"
  by (simp add: update_spindle_speed_def endswith_def)

text \<open>
  Claim C9, at a directory with one file \<open>a.tap\<close> and a subdirectory named \<open>old.tap\<close>.
  The count of processed files stays within the total, as the claim says, but it ends at 1
  with a total of 2, where the claim says that it reaches the total. Lemma
  \<open>processed_within_total\<close> above is the general statement: the two numbers differ by
  the number of subdirectories whose name ends with \<open>.tap\<close>.
\<close>

theorem directory_named_tap_counted_in_total:
  "update_spindle_speed [File ''a.tap'', Dir ''old.tap'' []] [''jobs''] ''1000''
       (single_file [''jobs'', ''a.tap''] ''S500\<newline>'') =
     Inr \<lparr>world_of = written [''jobs'', ''a.tap''] ''S1000 M3\<newline>''
                        (single_file [''jobs'', ''a.tap''] ''S500\<newline>''),
          processed_files = 1, total_files = 2\<rparr>"
  by (simp add: update_spindle_speed_def endswith_def update_file_spindle_speed_def
      single_file_def written_def s_check_def s_line_def)

end
